theory Spec2Isabelle
  imports Main "HOL-Library.Sublist" "HOL-Library.Char_ord" "HOL-Library.List_Lexorder" "HOL-Library.AList"
begin

section \<open>Python values used by \<open>common_functions.py\<close>\<close>

text \<open>
  The module is Python 3. Strings are modelled as \<open>string\<close> (lists of characters), lists as
  HOL lists, and a \<open>dict\<close> as an association list in insertion order whose keys are looked
  up with \<open>map_of\<close>. Every exception the modelled code can raise is a value of \<open>error\<close>;
  a function that may raise returns \<open>error + 'a\<close> with \<open>Inl\<close> for the exception.
  \<open>ReError\<close> is \<open>re.error\<close>. \<open>OutsideFragment\<close> is no Python exception: it marks a regular
  expression that uses syntax beyond the fragment modelled below, about which nothing is
  stated.
\<close>

datatype error = IndexError | KeyError | ValueError | AttributeError | ReError | OutsideFragment

type_synonym ('k, 'v) dict = "('k \<times> 'v) list"

text \<open>\<open>xs[i]\<close> for a non-negative constant index: \<open>IndexError\<close> when out of range.\<close>

definition list_get :: "'a list \<Rightarrow> nat \<Rightarrow> error + 'a" where
  "list_get xs i = (if i < length xs then Inr (xs ! i) else Inl IndexError)"

text \<open>\<open>d[k]\<close>: \<open>KeyError\<close> when the key is absent.\<close>

definition dict_get :: "('k, 'v) dict \<Rightarrow> 'k \<Rightarrow> error + 'v" where
  "dict_get d k = (case map_of d k of None \<Rightarrow> Inl KeyError | Some v \<Rightarrow> Inr v)"

text \<open>\<open>k in d\<close>.\<close>

definition dict_mem :: "'k \<Rightarrow> ('k, 'v) dict \<Rightarrow> bool" where
  "dict_mem k d = (map_of d k \<noteq> None)"

text \<open>
  \<open>os.path.basename\<close> of \<open>posixpath\<close>: everything after the last slash
  (\<open>p[p.rfind('/') + 1:]\<close>).
\<close>

definition basename :: "string \<Rightarrow> string" where
  "basename p = rev (takeWhile (\<lambda>c. c \<noteq> CHR ''/'') (rev p))"

text \<open>
  \<open>str.replace(old, new)\<close> without a count: scanning from the left, every occurrence of
  \<open>old\<close> that does not overlap an earlier replaced one is replaced by \<open>new\<close>. For the empty
  \<open>old\<close>, \<open>new\<close> is inserted before every character and at the end.
\<close>

function str_replace :: "string \<Rightarrow> string \<Rightarrow> string \<Rightarrow> string" where
  "str_replace [] old new = (if old = [] then new else [])"
| "str_replace (c # cs) old new =
     (if old = [] then new @ c # str_replace cs old new
      else if prefix old (c # cs) then new @ str_replace (drop (length old) (c # cs)) old new
      else c # str_replace cs old new)"
  by pat_completeness auto
termination
  by (relation "measure (\<lambda>(s, old, new). length s)") auto


section \<open>\<open>get_sample_names\<close>\<close>

text \<open>
  Line 108, the first statement of the loop body:
  \<open>x = os.path.basename(x).replace(ext, "")\<close>.
\<close>

definition strip_ext :: "string \<Rightarrow> string \<Rightarrow> string" where
  "strip_ext x ext = str_replace (basename x) ext []"

text \<open>
  The body of the \<open>try\<close> block, \<open>x.replace(reads[0], "").replace(reads[1], "")\<close>, evaluated
  left to right: \<open>reads[0]\<close>, the first replacement, \<open>reads[1]\<close>, the second replacement.
\<close>

definition strip_reads :: "string \<Rightarrow> string list \<Rightarrow> error + string" where
  "strip_reads x reads =
     (case list_get reads 0 of
        Inl e \<Rightarrow> Inl e
      | Inr r0 \<Rightarrow>
          (let y = str_replace x r0 [] in
           case list_get reads 1 of
             Inl e \<Rightarrow> Inl e
           | Inr r1 \<Rightarrow> Inr (str_replace y r1 [])))"

text \<open>
  One pass through the loop body: the value appended to \<open>s\<close>. \<open>except IndexError: pass\<close>
  leaves \<open>x\<close> as it was before the \<open>try\<close>; any other exception would propagate.
\<close>

definition sample_name :: "string \<Rightarrow> string \<Rightarrow> string list \<Rightarrow> error + string" where
  "sample_name x ext reads =
     (let x1 = strip_ext x ext in
      case strip_reads x1 reads of
        Inl IndexError \<Rightarrow> Inr x1
      | Inl e \<Rightarrow> Inl e
      | Inr x2 \<Rightarrow> Inr x2)"

fun get_sample_names_loop ::
  "string list \<Rightarrow> string \<Rightarrow> string list \<Rightarrow> string list \<Rightarrow> error + string list" where
  "get_sample_names_loop [] ext reads s = Inr s"
| "get_sample_names_loop (x # infiles) ext reads s =
     (case sample_name x ext reads of
        Inl e \<Rightarrow> Inl e
      | Inr n \<Rightarrow> get_sample_names_loop infiles ext reads (s @ [n]))"

text \<open>
  \<open>sorted(list(set(s)))\<close>. The order in which a Python \<open>set\<close> of strings is iterated depends
  on the hash seed of the process, so \<open>list(set(s))\<close> is modelled by a parameter \<open>enum\<close>: any
  function listing each element of its argument exactly once (\<open>set_order\<close>).
  \<open>sorted\<close> on strings is ascending code-point order, the order of \<open>string\<close> here.
\<close>

definition set_order :: "(string list \<Rightarrow> string list) \<Rightarrow> bool" where
  "set_order enum = (\<forall>s. distinct (enum s) \<and> set (enum s) = set s)"

definition get_sample_names_iter ::
  "(string list \<Rightarrow> string list) \<Rightarrow> string list \<Rightarrow> string \<Rightarrow> string list \<Rightarrow> error + string list" where
  "get_sample_names_iter enum infiles ext reads =
     (case get_sample_names_loop infiles ext reads [] of
        Inl e \<Rightarrow> Inl e
      | Inr s \<Rightarrow> Inr (sort (enum s)))"

definition get_sample_names :: "string list \<Rightarrow> string \<Rightarrow> string list \<Rightarrow> error + string list" where
  "get_sample_names infiles ext reads = get_sample_names_iter remdups infiles ext reads"

subsection \<open>What the specification says about the extension\<close>

text \<open>
  The specification describes line 108 as removing the first occurrence of the extension
  only. \<open>remove_first\<close> follows those words, for comparison with \<open>str_replace\<close>.
\<close>

fun remove_first :: "string \<Rightarrow> string \<Rightarrow> string" where
  "remove_first old [] = []"
| "remove_first old (c # cs) =
     (if prefix old (c # cs) then drop (length old) (c # cs) else c # remove_first old cs)"

text \<open>
  What \<open>s.replace(old, "")\<close> removes, stated without recursion. \<open>joined old us\<close> is
  \<open>old.join(us)\<close>. In \<open>leftmost_split old s us\<close> the pieces \<open>us\<close> are what is kept: \<open>s\<close> is the
  pieces with one \<open>old\<close> between neighbours, no occurrence of \<open>old\<close> starts inside a piece
  that is followed by a removed occurrence, and none is left in the last piece.
\<close>

fun joined :: "string \<Rightarrow> string list \<Rightarrow> string" where
  "joined old [] = []"
| "joined old [u] = u"
| "joined old (u # v # us) = u @ old @ joined old (v # us)"

definition leftmost_split :: "string \<Rightarrow> string \<Rightarrow> string list \<Rightarrow> bool" where
  "leftmost_split old s us =
     (us \<noteq> [] \<and> s = joined old us \<and>
      list_all (\<lambda>u. \<not> sublist old (u @ butlast old)) (butlast us) \<and>
      \<not> sublist old (last us))"

definition removal :: "string \<Rightarrow> string \<Rightarrow> string \<Rightarrow> bool" where
  "removal old s t =
     (if old = [] then t = s else (\<exists>us. leftmost_split old s us \<and> t = concat us))"


section \<open>The fragment of \<open>re\<close> used by \<open>is_paired\<close>\<close>

text \<open>
  \<open>is_paired\<close> builds a pattern from the two read suffixes without escaping them, so the
  suffixes are read as regular expressions. The model covers this fragment of the syntax of
  \<open>re\<close> (no flags): ordinary characters, \<open>.\<close> (any character but a newline), \<open>^\<close> (start of the
  string), \<open>$\<close> (end of the string, or just before a newline that ends it), \<open>|\<close>, capturing
  groups \<open>( )\<close>, and the greedy quantifiers \<open>*\<close>, \<open>+\<close>, \<open>?\<close> on an operand that cannot match the
  empty string. A backslash, \<open>[\<close>, \<open>{\<close>, \<open>(?\<close>, a quantifier followed by \<open>?\<close> or \<open>+\<close>, and a
  quantifier on an operand that can match the empty string are \<open>OutsideFragment\<close>.
\<close>

datatype regex =
    Lit char | Dot | Bol | Eol | Eps
  | Seq regex regex | Alt regex regex
  | Star regex | Plus regex | Opt regex
  | Group nat regex

subsection \<open>Parsing a pattern\<close>

text \<open>
  The parser reads the pattern from left to right. A \<open>Frame g alts items\<close> is a group being
  read: its number (\<open>0\<close> for the whole pattern), the branches before the last \<open>|\<close> (latest
  first) and the items of the current branch (latest first).
\<close>

datatype frame = Frame nat "regex list" "regex list"

definition seq_of :: "regex list \<Rightarrow> regex" where
  "seq_of items = foldl (\<lambda>acc x. Seq x acc) Eps items"

definition alt_of :: "regex \<Rightarrow> regex list \<Rightarrow> regex" where
  "alt_of b alts = foldl (\<lambda>acc x. Alt x acc) b alts"

fun nullable :: "regex \<Rightarrow> bool" where
  "nullable (Lit c) = False"
| "nullable Dot = False"
| "nullable Bol = True"
| "nullable Eol = True"
| "nullable Eps = True"
| "nullable (Seq a b) = (nullable a \<and> nullable b)"
| "nullable (Alt a b) = (nullable a \<or> nullable b)"
| "nullable (Star a) = True"
| "nullable (Plus a) = nullable a"
| "nullable (Opt a) = True"
| "nullable (Group n a) = nullable a"

fun is_repeat :: "regex \<Rightarrow> bool" where
  "is_repeat (Star a) = True"
| "is_repeat (Plus a) = True"
| "is_repeat (Opt a) = True"
| "is_repeat a = False"

definition quantify :: "char \<Rightarrow> regex \<Rightarrow> regex" where
  "quantify c x = (if c = CHR ''*'' then Star x else if c = CHR ''+'' then Plus x else Opt x)"

text \<open>
  The parser state: whether the previous character opened a group, the number of groups
  opened so far, the frame being read and the frames enclosing it. \<open>re.error\<close> is raised for
  a \<open>)\<close> that closes nothing, for a quantifier with nothing to repeat (at the start of a
  branch, or after \<open>^\<close> or \<open>$\<close>) and for \<open>*\<close> after a quantifier.
\<close>

type_synonym pstate = "bool \<times> nat \<times> frame \<times> frame list"

fun parse_char :: "char \<Rightarrow> pstate \<Rightarrow> error + pstate" where
  "parse_char c (opened, n, Frame g alts items, encl) =
     (if c = CHR ''('' then
        Inr (True, Suc n, Frame (Suc n) [] [], Frame g alts items # encl)
      else if c = CHR '')'' then
        (case encl of
           [] \<Rightarrow> Inl ReError
         | Frame g' alts' items' # encl' \<Rightarrow>
             Inr (False, n, Frame g' alts' (Group g (alt_of (seq_of items) alts) # items'), encl'))
      else if c = CHR ''|'' then
        Inr (False, n, Frame g (seq_of items # alts) [], encl)
      else if c = CHR ''*'' \<or> c = CHR ''+'' \<or> c = CHR ''?'' then
        (if opened \<and> c = CHR ''?'' then Inl OutsideFragment
         else case items of
           [] \<Rightarrow> Inl ReError
         | x # xs \<Rightarrow>
             if x = Bol \<or> x = Eol then Inl ReError
             else if is_repeat x then (if c = CHR ''*'' then Inl ReError else Inl OutsideFragment)
             else if nullable x then Inl OutsideFragment
             else Inr (False, n, Frame g alts (quantify c x # xs), encl))
      else if c = CHR ''.'' then Inr (False, n, Frame g alts (Dot # items), encl)
      else if c = CHR ''^'' then Inr (False, n, Frame g alts (Bol # items), encl)
      else if c = CHR ''$'' then Inr (False, n, Frame g alts (Eol # items), encl)
      else if c = CHR 0x5C \<or> c = CHR ''['' \<or> c = CHR ''{'' then Inl OutsideFragment
      else Inr (False, n, Frame g alts (Lit c # items), encl))"

fun parse_chars :: "string \<Rightarrow> pstate \<Rightarrow> error + pstate" where
  "parse_chars [] st = Inr st"
| "parse_chars (c # cs) st =
     (case parse_char c st of Inl e \<Rightarrow> Inl e | Inr st' \<Rightarrow> parse_chars cs st')"

text \<open>\<open>re.compile\<close>: a group still open at the end of the pattern is an \<open>re.error\<close>.\<close>

definition re_compile :: "string \<Rightarrow> error + regex" where
  "re_compile pattern =
     (case parse_chars pattern (False, 0, Frame 0 [] [], []) of
        Inl e \<Rightarrow> Inl e
      | Inr (opened, n, Frame g alts items, encl) \<Rightarrow>
          if encl \<noteq> [] then Inl ReError else Inr (alt_of (seq_of items) alts))"

subsection \<open>Matching\<close>

text \<open>
  A matcher state is the position in the subject string, the rest of the string from there
  on, and the text captured by each group so far. \<open>ms r st\<close> lists the states in which a
  match of \<open>r\<close> begun in \<open>st\<close> can end, in the order in which the backtracking matcher of \<open>re\<close>
  tries them: a greedy quantifier tries one more repetition before it tries to stop, an
  alternation tries its branches from left to right.
\<close>

type_synonym mstate = "nat \<times> string \<times> (nat \<rightharpoonup> string)"

fun rest_of :: "mstate \<Rightarrow> string" where
  "rest_of (i, s, g) = s"

fun rsize :: "regex \<Rightarrow> nat" where
  "rsize (Seq a b) = Suc (rsize a + rsize b)"
| "rsize (Alt a b) = Suc (rsize a + rsize b)"
| "rsize (Star a) = Suc (rsize a)"
| "rsize (Plus a) = Suc (Suc (rsize a))"
| "rsize (Opt a) = Suc (rsize a)"
| "rsize (Group n a) = Suc (rsize a)"
| "rsize a = 0"

function ms :: "regex \<Rightarrow> mstate \<Rightarrow> mstate list" where
  "ms (Lit c) (i, s, g) =
     (case s of [] \<Rightarrow> [] | x # xs \<Rightarrow> if x = c then [(Suc i, xs, g)] else [])"
| "ms Dot (i, s, g) =
     (case s of [] \<Rightarrow> [] | x # xs \<Rightarrow> if x \<noteq> CHR 0x0A then [(Suc i, xs, g)] else [])"
| "ms Bol (i, s, g) = (if i = 0 then [(i, s, g)] else [])"
| "ms Eol (i, s, g) = (if s = [] \<or> s = [CHR 0x0A] then [(i, s, g)] else [])"
| "ms Eps st = [st]"
| "ms (Seq a b) st = concat (map (ms b) (ms a st))"
| "ms (Alt a b) st = ms a st @ ms b st"
| "ms (Star a) st =
     concat (map (ms (Star a))
               (filter (\<lambda>t. length (rest_of t) < length (rest_of st)) (ms a st))) @ [st]"
| "ms (Plus a) st = concat (map (ms (Star a)) (ms a st))"
| "ms (Opt a) st = ms a st @ [st]"
| "ms (Group n a) (i, s, g) =
     map (\<lambda>(j, t, h). (j, t, h(n \<mapsto> take (j - i) s))) (ms a (i, s, g))"
  by pat_completeness auto
termination
  by (relation "(\<lambda>(r, st). rsize r) <*mlex*> measure (\<lambda>(r, st). length (rest_of st))")
     (auto simp: wf_mlex mlex_less mlex_leq)

text \<open>
  \<open>re.match(pattern, string)\<close>: the match is tried at the start of the string and need not
  reach its end. The result is \<open>None\<close> or the groups of the first match found.
\<close>

definition re_match :: "string \<Rightarrow> string \<Rightarrow> error + (nat \<rightharpoonup> string) option" where
  "re_match pattern string =
     (case re_compile pattern of
        Inl e \<Rightarrow> Inl e
      | Inr r \<Rightarrow>
          Inr (case ms r (0, string, Map.empty) of [] \<Rightarrow> None | (i, s, g) # sts \<Rightarrow> Some g))"

section \<open>\<open>is_paired\<close>\<close>

text \<open>\<open>max\<close> of a list: \<open>ValueError\<close> on the empty list.\<close>

definition py_max :: "nat list \<Rightarrow> error + nat" where
  "py_max xs = (case xs of [] \<Rightarrow> Inl ValueError | x # ys \<Rightarrow> Inr (fold max ys x))"

text \<open>
  The pattern \<open>"^(.+)(" + reads[0] + "|" + reads[1] + ")$"\<close>: the suffixes are put into it as
  they are.
\<close>

definition pair_pattern :: "string \<Rightarrow> string \<Rightarrow> string" where
  "pair_pattern r0 r1 = ''^(.+)('' @ r0 @ ''|'' @ r1 @ '')$''"

text \<open>
  The loop over \<open>infiles\<close>, with \<open>infiles_dic\<close> as accumulator. The keys are what
  \<open>m.group(1)\<close> returns: a string, or \<open>None\<close> for a group that took no part in the match.
  \<open>reads[0]\<close> and \<open>reads[1]\<close> are evaluated in every pass, outside any \<open>try\<close>.
\<close>

fun is_paired_loop ::
  "string list \<Rightarrow> string \<Rightarrow> string list \<Rightarrow> (string option, string list) dict \<Rightarrow>
     error + (string option, string list) dict" where
  "is_paired_loop [] ext reads infiles_dic = Inr infiles_dic"
| "is_paired_loop (infile # infiles) ext reads infiles_dic =
     (let fname = strip_ext infile ext in
      case list_get reads 0 of
        Inl e \<Rightarrow> Inl e
      | Inr r0 \<Rightarrow>
     (case list_get reads 1 of
        Inl e \<Rightarrow> Inl e
      | Inr r1 \<Rightarrow>
     (case re_match (pair_pattern r0 r1) fname of
        Inl e \<Rightarrow> Inl e
      | Inr None \<Rightarrow> is_paired_loop infiles ext reads infiles_dic
      | Inr (Some g) \<Rightarrow>
          (let bname = g 1 in
           if \<not> dict_mem bname infiles_dic then
             is_paired_loop infiles ext reads (AList.update bname [infile] infiles_dic)
           else
             (case dict_get infiles_dic bname of
                Inl e \<Rightarrow> Inl e
              | Inr l \<Rightarrow>
                  is_paired_loop infiles ext reads
                    (AList.update bname (l @ [infile]) infiles_dic))))))"

definition is_paired :: "string list \<Rightarrow> string \<Rightarrow> string list \<Rightarrow> error + bool" where
  "is_paired infiles ext reads =
     (case is_paired_loop infiles ext reads [] of
        Inl e \<Rightarrow> Inl e
      | Inr infiles_dic \<Rightarrow>
          if infiles_dic = [] then Inr False
          else (case py_max (map (\<lambda>x. length x) (map snd infiles_dic)) of
                  Inl e \<Rightarrow> Inl e
                | Inr m \<Rightarrow> Inr (m = 2)))"


section \<open>Configuration dictionaries\<close>

text \<open>
  \<open>sanity_dict_clean\<close>. The argument is what \<open>yaml.load\<close> returned for a document that is a
  mapping with string keys (\<open>Some\<close> of it) or for an empty document (\<open>None\<close>).
  \<open>myDict and k in myDict\<close> is false for \<open>None\<close> and for the empty \<open>dict\<close>;
  \<open>del myDict[k]\<close> is \<open>AList.delete\<close>.
\<close>

definition unwanted_keys :: "string list" where
  "unwanted_keys = [''maindir'', ''workflow'']"

fun sanity_dict_clean_loop ::
  "string list \<Rightarrow> (string, 'v) dict option \<Rightarrow> (string, 'v) dict option" where
  "sanity_dict_clean_loop [] myDict = myDict"
| "sanity_dict_clean_loop (k # ks) myDict =
     (case myDict of
        None \<Rightarrow> sanity_dict_clean_loop ks None
      | Some d \<Rightarrow>
          if d \<noteq> [] \<and> dict_mem k d then sanity_dict_clean_loop ks (Some (AList.delete k d))
          else sanity_dict_clean_loop ks (Some d))"

definition sanity_dict_clean :: "(string, 'v) dict option \<Rightarrow> (string, 'v) dict option" where
  "sanity_dict_clean myDict = sanity_dict_clean_loop unwanted_keys myDict"

text \<open>
  \<open>load_configfile\<close>, from the point where \<open>yaml.load\<close> has returned \<open>parsed\<close>. The result is
  the returned configuration and the strings handed to \<open>print\<close>, one per call. \<open>str_of\<close> is
  how \<open>format\<close> renders a value. With \<open>verbose\<close> set, \<open>config.items()\<close> raises
  \<open>AttributeError\<close> when the document was empty.
\<close>

definition load_configfile ::
  "('v \<Rightarrow> string) \<Rightarrow> (string, 'v) dict option \<Rightarrow> string \<Rightarrow> bool \<Rightarrow> string \<Rightarrow>
     error + ((string, 'v) dict option \<times> string list)" where
  "load_configfile str_of parsed configfile verbose info =
     (let config = sanity_dict_clean parsed in
      if verbose then
        (case config of
           None \<Rightarrow> Inl AttributeError
         | Some d \<Rightarrow>
             Inr (config,
                  [[CHR 0x0A] @ ''--- '' @ info @ '' '' @ replicate 69 CHR ''-'',
                   ''config file: '' @ configfile] @
                  map (\<lambda>(k, v). k @ '': '' @ str_of v) (sort_key fst d) @
                  [replicate 80 CHR ''-'' @ '' '' @ [CHR 0x0A]]))
      else Inr (config, []))"

text \<open>
  \<open>config_diff\<close>. \<open>for k in dict1\<close> visits the keys of \<open>dict1\<close> in insertion order;
  \<open>diff[k] = v\<close> is \<open>AList.update\<close>. The values are whatever the configuration holds, and
  \<open>dict1[k] != dict2[k]\<close> is what \<open>!=\<close> of the values says: the parameter \<open>ne\<close>. It need not
  be the negation of equality: for the float \<open>nan\<close>, \<open>nan != nan\<close> is true.
\<close>

fun config_diff_loop ::
  "('v \<Rightarrow> 'v \<Rightarrow> bool) \<Rightarrow> 'k list \<Rightarrow> ('k, 'v) dict \<Rightarrow> ('k, 'v) dict \<Rightarrow> ('k, 'v) dict \<Rightarrow>
     error + ('k, 'v) dict" where
  "config_diff_loop ne [] dict1 dict2 diff = Inr diff"
| "config_diff_loop ne (k # ks) dict1 dict2 diff =
     (if dict_mem k dict2 then
        (case dict_get dict1 k of
           Inl e \<Rightarrow> Inl e
         | Inr v1 \<Rightarrow>
        (case dict_get dict2 k of
           Inl e \<Rightarrow> Inl e
         | Inr v2 \<Rightarrow>
             if ne v1 v2 then config_diff_loop ne ks dict1 dict2 (AList.update k v1 diff)
             else config_diff_loop ne ks dict1 dict2 diff))
      else
        (case dict_get dict1 k of
           Inl e \<Rightarrow> Inl e
         | Inr v1 \<Rightarrow> config_diff_loop ne ks dict1 dict2 (AList.update k v1 diff)))"

definition config_diff ::
  "('v \<Rightarrow> 'v \<Rightarrow> bool) \<Rightarrow> ('k, 'v) dict \<Rightarrow> ('k, 'v) dict \<Rightarrow> error + ('k, 'v) dict" where
  "config_diff ne dict1 dict2 = config_diff_loop ne (map fst dict1) dict1 dict2 []"

text \<open>
  \<open>differs ne u v\<close>: both values are there and \<open>!=\<close> holds of them. This is how
  the value in \<open>a\<close> differs from the value in \<open>b\<close> for a key present in both.
\<close>

definition differs :: "('v \<Rightarrow> 'v \<Rightarrow> bool) \<Rightarrow> 'v option \<Rightarrow> 'v option \<Rightarrow> bool" where
  "differs ne u v = (case (u, v) of (Some x, Some y) \<Rightarrow> ne x y | _ \<Rightarrow> False)"


section \<open>The pairing grouping of the specification\<close>

text \<open>
  The specification builds the grouping from the stripped name of each path: a name that is
  \<open>prefix + suffix0\<close> or \<open>prefix + suffix1\<close> is grouped under that prefix. \<open>spec_base_name\<close>
  follows these words (any prefix, the longest one when both suffixes fit); \<open>base_name\<close>
  differs in asking for a non-empty prefix. \<open>paired_by\<close> is the decision on a grouping:
  there is a group, and the largest group has exactly two members.
\<close>

definition spec_base_name :: "string \<Rightarrow> string \<Rightarrow> string \<Rightarrow> string option" where
  "spec_base_name r0 r1 fname =
     find (\<lambda>p. fname = p @ r0 \<or> fname = p @ r1) (rev (prefixes fname))"

definition base_name :: "string \<Rightarrow> string \<Rightarrow> string \<Rightarrow> string option" where
  "base_name r0 r1 fname =
     find (\<lambda>p. p \<noteq> [] \<and> (fname = p @ r0 \<or> fname = p @ r1)) (rev (prefixes fname))"

definition group_of :: "(string \<Rightarrow> string option) \<Rightarrow> string list \<Rightarrow> string \<Rightarrow> string list" where
  "group_of base infiles p = filter (\<lambda>x. base x = Some p) infiles"

definition paired_by :: "(string \<Rightarrow> string option) \<Rightarrow> string list \<Rightarrow> bool" where
  "paired_by base infiles =
     (let keys = remdups (List.map_filter base infiles) in
      keys \<noteq> [] \<and> Max (set (map (\<lambda>p. length (group_of base infiles p)) keys)) = 2)"

definition spec_pairing :: "string list \<Rightarrow> string \<Rightarrow> string \<Rightarrow> string \<Rightarrow> bool" where
  "spec_pairing infiles ext r0 r1 =
     paired_by (\<lambda>x. spec_base_name r0 r1 (strip_ext x ext)) infiles"

definition pairing :: "string list \<Rightarrow> string \<Rightarrow> string \<Rightarrow> string \<Rightarrow> bool" where
  "pairing infiles ext r0 r1 = paired_by (\<lambda>x. base_name r0 r1 (strip_ext x ext)) infiles"

text \<open>
  A read suffix is \<open>plain\<close> when none of its characters is special in a regular
  expression, so that the pattern built from it matches the suffix itself.
\<close>

definition plain :: "string \<Rightarrow> bool" where
  "plain r = list_all (\<lambda>c. c \<notin> set (CHR 0x5C # ''()|*+?.^$[{'')) r"

subsection \<open>Auxiliary definitions\<close>

text \<open>
  What \<open>re.compile\<close> makes of the pattern of \<open>is_paired\<close> for plain suffixes: \<open>lits r\<close>
  matches the string \<open>r\<close>, \<open>tail_regex\<close> is the part after the first group.
\<close>

definition lits :: "string \<Rightarrow> regex" where
  "lits r = foldr Seq (map Lit r) Eps"

definition tail_regex :: "string \<Rightarrow> string \<Rightarrow> regex" where
  "tail_regex r0 r1 = Seq (Group 2 (Alt (lits r0) (lits r1))) (Seq Eol Eps)"

definition pair_regex :: "string \<Rightarrow> string \<Rightarrow> regex" where
  "pair_regex r0 r1 = Seq Bol (Seq (Group 1 (Seq (Plus Dot) Eps)) (tail_regex r0 r1))"

text \<open>
  What the text after the captured prefix must be for the pattern to match: one of the
  suffixes, then the end of the string or a newline that ends it.
\<close>

definition at_eol :: "string \<Rightarrow> bool" where
  "at_eol t = (t = [] \<or> t = [CHR 0x0A])"

definition tail_ok :: "string \<Rightarrow> string \<Rightarrow> string \<Rightarrow> bool" where
  "tail_ok r0 r1 t =
     (prefix r0 t \<and> at_eol (drop (length r0) t) \<or> prefix r1 t \<and> at_eol (drop (length r1) t))"

section \<open>Properties of \<open>get_sample_names\<close>\<close>

subsection \<open>The loop never raises\<close>

lemma strip_reads_result:
  "strip_reads x reads =
     (if length reads < 2 then Inl IndexError
      else Inr (str_replace (str_replace x (reads ! 0) []) (reads ! 1) []))"
  by (simp add: strip_reads_def list_get_def)

lemma sample_name_result:
  "sample_name x ext reads =
     Inr (if length reads < 2 then strip_ext x ext
          else str_replace (str_replace (strip_ext x ext) (reads ! 0) []) (reads ! 1) [])"
  by (simp add: sample_name_def strip_reads_result)

lemma get_sample_names_loop_result:
  "get_sample_names_loop infiles ext reads s =
     Inr (s @ map (\<lambda>x. projr (sample_name x ext reads)) infiles)"
  by (induction infiles arbitrary: s) (simp_all add: sample_name_result)

lemma get_sample_names_iter_result:
  "get_sample_names_iter enum infiles ext reads =
     Inr (sort (enum (map (\<lambda>x. projr (sample_name x ext reads)) infiles)))"
  by (simp add: get_sample_names_iter_def get_sample_names_loop_result)

subsection \<open>What \<open>replace\<close> removes\<close>

lemma sublist_Cons_iff: "sublist old (c # w) \<longleftrightarrow> prefix old (c # w) \<or> sublist old w"
  by (metis sublist_Cons_right)

lemma not_sublist_butlast: "old \<noteq> [] \<Longrightarrow> \<not> sublist old (butlast old)"
  by (auto dest!: sublist_length_le) (metis Suc_n_not_le_n Suc_pred length_greater_0_conv)

lemma str_replace_split:
  "old \<noteq> [] \<Longrightarrow> \<exists>us. leftmost_split old s us \<and> str_replace s old [] = concat us"
proof (induction s old "[] :: string" rule: str_replace.induct)
  case (1 old)
  then show ?case
    by (intro exI [of _ "[[]]"]) (simp add: leftmost_split_def)
next
  case (2 c cs old)
  show ?case
  proof (cases "prefix old (c # cs)")
    case True
    with 2 obtain us where us: "leftmost_split old (drop (length old) (c # cs)) us"
      "str_replace (drop (length old) (c # cs)) old [] = concat us"
      by blast
    from True have s: "c # cs = old @ drop (length old) (c # cs)"
      by (metis append_eq_conv_conj prefix_def)
    from us(1) obtain u us' where u: "us = u # us'"
      by (cases us) (auto simp: leftmost_split_def)
    have "leftmost_split old (c # cs) ([] # us)"
      using us(1) s \<open>old \<noteq> []\<close> unfolding leftmost_split_def u
      by (auto simp: not_sublist_butlast)
    with us(2) True \<open>old \<noteq> []\<close> show ?thesis
      by (intro exI [of _ "[] # us"]) simp
  next
    case False
    with 2 obtain us where us: "leftmost_split old cs us" "str_replace cs old [] = concat us"
      by blast
    from us(1) obtain u us' where u: "us = u # us'"
      by (cases us) (auto simp: leftmost_split_def)
    have "leftmost_split old (c # cs) ((c # u) # us')"
    proof (cases us')
      case Nil
      with us(1) u False show ?thesis
        by (auto simp: leftmost_split_def sublist_Cons_iff)
    next
      case (Cons v vs)
      have "\<not> prefix old (c # u @ butlast old)"
      proof
        assume "prefix old (c # u @ butlast old)"
        moreover have "prefix (c # u @ butlast old) (c # cs)"
          using us(1) \<open>old \<noteq> []\<close> unfolding u Cons leftmost_split_def
          by (simp add: prefix_def) (metis append_butlast_last_id append_assoc)
        ultimately show False using False by (meson prefix_order.trans)
      qed
      with us(1) show ?thesis
        unfolding u Cons leftmost_split_def by (auto simp: sublist_Cons_iff)
    qed
    with us(2) False \<open>old \<noteq> []\<close> show ?thesis
      by (intro exI [of _ "(c # u) # us'"]) (simp add: u)
  qed
qed

lemma str_replace_empty_old: "str_replace s [] [] = s"
  by (induction s) simp_all

lemma removal_str_replace: "removal old s (str_replace s old [])"
  using str_replace_split [of old s] by (auto simp: removal_def str_replace_empty_old)

text \<open>
  Claim C3, as amended. The claim says that only the first occurrence of the extension is
  removed from the final path component. The code removes every occurrence: scanning the
  basename from the left, each occurrence of a non-empty extension that does not overlap an
  occurrence already removed is deleted, and an empty extension removes nothing. With no
  read suffixes given, the result is the sample name of the path.
\<close>

theorem extension_removed_everywhere:
  "removal ext (basename x) (strip_ext x ext) \<and>
   sample_name x ext [] = Inr (strip_ext x ext)"
  by (simp add: strip_ext_def removal_str_replace sample_name_result)

theorem extension_removed_everywhere_witness:
  "leftmost_split ''.fq'' (basename ''run/sample.fq.fq'') [''sample'', '''', ''''] \<and>
   strip_ext ''run/sample.fq.fq'' ''.fq'' = concat [''sample'', '''', ''''] \<and>
   removal ''.fq'' (basename ''run/sample.fq.fq'') (strip_ext ''run/sample.fq.fq'' ''.fq'')"
proof -
  have "leftmost_split ''.fq'' (basename ''run/sample.fq.fq'') [''sample'', '''', '''']"
    by (simp add: leftmost_split_def basename_def sublist_Cons_iff)
  moreover have "strip_ext ''run/sample.fq.fq'' ''.fq'' = concat [''sample'', '''', '''']"
    by (simp add: strip_ext_def basename_def)
  ultimately show ?thesis
    using extension_removed_everywhere [of "''.fq''" "''run/sample.fq.fq''"] by blast
qed

text \<open>
  Claim C3 as stated fails on a basename that holds the extension twice: the code returns
  \<open>sample\<close>, removing the first occurrence only would leave \<open>sample.fq\<close>.
\<close>

theorem extension_first_only_counterexample:
  "get_sample_names [''run/sample.fq.fq''] ''.fq'' [] = Inr [''sample''] \<and>
   remove_first ''.fq'' (basename ''run/sample.fq.fq'') = ''sample.fq''"
  by (simp add: get_sample_names_def get_sample_names_iter_def sample_name_result
      strip_ext_def basename_def)

text \<open>
  Claim C10. With at least two read suffixes, the name appended for a path is the
  extension-stripped basename with every occurrence of the first suffix removed (anywhere in
  the name, scanning from the left), and then every occurrence of the second suffix removed
  from that result. The name \<open>sample_R10\<close> becomes \<open>sample0\<close> although it does not end in a
  read suffix.
\<close>

theorem read_suffixes_removed_everywhere:
  assumes "2 \<le> length reads"
  shows "\<exists>y z. removal (reads ! 0) (strip_ext x ext) y \<and> removal (reads ! 1) y z \<and>
           sample_name x ext reads = Inr z"
  using assms by (auto simp: sample_name_result intro: removal_str_replace)

theorem read_suffixes_removed_everywhere_witness:
  "2 \<le> length [''_R1'', ''_R2''] \<and>
   (\<exists>y z. removal ([''_R1'', ''_R2''] ! 0) (strip_ext ''sample_R10.fastq.gz'' ''.fastq.gz'') y \<and>
      removal ([''_R1'', ''_R2''] ! 1) y z \<and>
      sample_name ''sample_R10.fastq.gz'' ''.fastq.gz'' [''_R1'', ''_R2''] = Inr z) \<and>
   sample_name ''sample_R10.fastq.gz'' ''.fastq.gz'' [''_R1'', ''_R2''] = Inr ''sample0''"
proof -
  have h: "2 \<le> length [''_R1'', ''_R2'']" by simp
  have "sample_name ''sample_R10.fastq.gz'' ''.fastq.gz'' [''_R1'', ''_R2''] = Inr ''sample0''"
    by (simp add: sample_name_result strip_ext_def basename_def)
  with h read_suffixes_removed_everywhere [OF h, of "''sample_R10.fastq.gz''" "''.fastq.gz''"]
  show ?thesis by blast
qed

text \<open>
  Claim C4. For every list of input paths, extension and read suffixes,
  \<open>get_sample_names\<close> returns a list without duplicates that is sorted in ascending
  lexicographic order.
\<close>

theorem get_sample_names_sorted_distinct:
  "\<exists>names. get_sample_names infiles ext reads = Inr names \<and> distinct names \<and> sorted names"
  by (simp add: get_sample_names_def get_sample_names_iter_result)

text \<open>
  Claim C6. \<open>get_sample_names\<close> is deterministic: two runs on equal inputs return the same
  list, whatever the order in which each run iterates over the set of names.
\<close>

theorem get_sample_names_deterministic:
  assumes "set_order enum1" and "set_order enum2"
  shows "get_sample_names_iter enum1 infiles ext reads =
         get_sample_names_iter enum2 infiles ext reads"
proof -
  let ?s = "map (\<lambda>x. projr (sample_name x ext reads)) infiles"
  have "sort (enum1 ?s) = sort (enum2 ?s)"
  proof (rule sorted_distinct_set_unique)
    show "set (sort (enum1 ?s)) = set (sort (enum2 ?s))"
      using assms by (simp add: set_order_def)
  qed (use assms in \<open>simp_all add: set_order_def\<close>)
  then show ?thesis
    by (simp add: get_sample_names_iter_result)
qed

theorem get_sample_names_deterministic_witness:
  "set_order remdups \<and> set_order (\<lambda>s. rev (remdups s)) \<and>
   get_sample_names_iter remdups [''b_R1.fq'', ''a_R1.fq'', ''b_R2.fq''] ''.fq'' [''_R1'', ''_R2''] =
   get_sample_names_iter (\<lambda>s. rev (remdups s)) [''b_R1.fq'', ''a_R1.fq'', ''b_R2.fq''] ''.fq'' [''_R1'', ''_R2''] \<and>
   get_sample_names_iter remdups [''b_R1.fq'', ''a_R1.fq'', ''b_R2.fq''] ''.fq'' [''_R1'', ''_R2''] = Inr [''a'', ''b'']"
proof -
  have 1: "set_order remdups" by (simp add: set_order_def)
  have 2: "set_order (\<lambda>s. rev (remdups s))" by (simp add: set_order_def)
  have 3: "get_sample_names_iter remdups [''b_R1.fq'', ''a_R1.fq'', ''b_R2.fq''] ''.fq'' [''_R1'', ''_R2''] = Inr [''a'', ''b'']"
    by code_simp
  from 1 2 3 get_sample_names_deterministic [OF 1 2] show ?thesis by simp
qed

section \<open>Properties of \<open>is_paired\<close>\<close>

text \<open>
  Claim C5. On the empty list of input paths, for every extension and every list of read
  suffixes (the empty one too), \<open>get_sample_names\<close> returns the empty list and \<open>is_paired\<close>
  returns \<open>False\<close>.
\<close>

theorem empty_input:
  "get_sample_names [] ext reads = Inr [] \<and> is_paired [] ext reads = Inr False"
  by (simp add: get_sample_names_def get_sample_names_iter_def is_paired_def)

subsection \<open>Fewer than two read suffixes\<close>

text \<open>
  \<open>get_sample_names\<close> catches the \<open>IndexError\<close> of \<open>reads[0]\<close> and \<open>reads[1]\<close> and leaves the
  name as it is after the extension was removed. \<open>is_paired\<close> indexes \<open>reads\<close> outside any
  \<open>try\<close>: with fewer than two read suffixes it raises as soon as there is a path to look at.
  It also raises \<open>re.error\<close> when a suffix is not a well-formed regular expression.
\<close>

lemma sample_name_short_reads:
  "length reads < 2 \<Longrightarrow> sample_name x ext reads = Inr (strip_ext x ext)"
  by (simp add: sample_name_result)

lemma get_sample_names_total: "\<exists>names. get_sample_names infiles ext reads = Inr names"
  by (simp add: get_sample_names_def get_sample_names_iter_result)

lemma is_paired_raises_IndexError:
  "infiles \<noteq> [] \<Longrightarrow> length reads < 2 \<Longrightarrow> is_paired infiles ext reads = Inl IndexError"
  by (cases infiles) (auto simp: is_paired_def list_get_def Let_def)

lemma is_paired_raises_re_error:
  "is_paired [''sample_R1.fastq.gz''] ''.fastq.gz'' [''*'', ''_R2''] = Inl ReError"
  by (simp add: is_paired_def list_get_def pair_pattern_def re_match_def re_compile_def seq_of_def
      alt_of_def quantify_def)

text \<open>
  Claim C2 says that \<open>get_sample_names\<close> and \<open>is_paired\<close> complete without raising for every
  list of read suffixes, also one with fewer than two elements. \<open>get_sample_names\<close> does
  (\<open>get_sample_names_total\<close>, \<open>sample_name_short_reads\<close>); \<open>is_paired\<close> does not: on one
  input path and the empty list of read suffixes it raises \<open>IndexError\<close>.
\<close>

theorem is_paired_short_reads_raises:
  "is_paired [''sample_R1.fastq.gz''] ''.fastq.gz'' [] = Inl IndexError"
  by (simp add: is_paired_def list_get_def)

subsection \<open>Compiling the pattern for plain suffixes\<close>

lemma parse_chars_append:
  "parse_chars (a @ b) st =
     (case parse_chars a st of Inl e \<Rightarrow> Inl e | Inr st' \<Rightarrow> parse_chars b st')"
  by (induction a arbitrary: st) (auto split: sum.splits)

lemma parse_chars_plain:
  "plain r \<Longrightarrow>
   parse_chars r (opened, n, Frame g alts items, encl) =
     Inr (opened \<and> r = [], n, Frame g alts (rev (map Lit r) @ items), encl)"
  by (induction r arbitrary: opened items) (simp_all add: plain_def)

lemma seq_of_rev: "seq_of (rev xs) = foldr Seq xs Eps"
  by (simp add: seq_of_def foldr_conv_foldl)

lemma re_compile_pair_pattern:
  assumes "plain r0" and "plain r1"
  shows "re_compile (pair_pattern r0 r1) = Inr (pair_regex r0 r1)"
proof -
  have "parse_chars (''^(.+)('' @ r0 @ ''|'' @ r1 @ '')$'') (False, 0, Frame 0 [] [], []) =
     Inr (False, 2, Frame 0 []
       [Eol, Group 2 (Alt (seq_of (rev (map Lit r0))) (seq_of (rev (map Lit r1)))),
        Group 1 (Seq (Plus Dot) Eps), Bol], [])"
    using assms
    by (simp add: parse_chars_append parse_chars_plain quantify_def seq_of_def [of "[Plus Dot]"]
        alt_of_def numeral_2_eq_2)
  moreover have "seq_of [d, c, b, a] = Seq a (Seq b (Seq c (Seq d Eps)))" for a b c d
    by (simp add: seq_of_def)
  ultimately show ?thesis
    by (simp add: re_compile_def pair_pattern_def seq_of_rev alt_of_def pair_regex_def
        tail_regex_def lits_def)
qed

subsection \<open>Matching the pattern\<close>

text \<open>
  The first group takes as many characters as it can up to the first newline and gives them
  back one at a time; after each prefix the rest must be one of the suffixes, up to the end
  of the string.
\<close>

lemma ms_lits:
  "ms (lits r) (i, s, g) =
     (if prefix r s then [(i + length r, drop (length r) s, g)] else [])"
  unfolding lits_def
proof (induction r arbitrary: i s)
  case Nil
  then show ?case by simp
next
  case (Cons c r)
  then show ?case by (cases s) auto
qed

lemma ms_star_dot:
  "ms (Star Dot) (i, s, g) =
     map (\<lambda>k. (i + k, drop k s, g)) (rev [0..<Suc (length (takeWhile (\<lambda>c. c \<noteq> CHR 0x0A) s))])"
proof (induction s arbitrary: i)
  case Nil
  then show ?case by simp
next
  case (Cons x xs)
  show ?case
  proof (cases "x = CHR 0x0A")
    case True
    then show ?thesis by simp
  next
    case False
    let ?m = "length (takeWhile (\<lambda>c. c \<noteq> CHR 0x0A) xs)"
    have "[0..<Suc (Suc ?m)] = 0 # map Suc [0..<Suc ?m]"
      by (metis map_Suc_upt upt_conv_Cons zero_less_Suc)
    with False Cons [of "Suc i"] show ?thesis
      by (simp add: rev_map comp_def del: upt_Suc)
  qed
qed

lemma ms_plus_dot:
  "ms (Plus Dot) (i, s, g) =
     map (\<lambda>k. (i + k, drop k s, g)) (rev [1..<Suc (length (takeWhile (\<lambda>c. c \<noteq> CHR 0x0A) s))])"
proof (cases s)
  case Nil
  then show ?thesis by simp
next
  case (Cons x xs)
  show ?thesis
  proof (cases "x = CHR 0x0A")
    case True
    with Cons show ?thesis by simp
  next
    case False
    let ?m = "length (takeWhile (\<lambda>c. c \<noteq> CHR 0x0A) xs)"
    have "[1..<Suc (Suc ?m)] = map Suc [0..<Suc ?m]"
      by (metis One_nat_def map_Suc_upt)
    with False Cons ms_star_dot [of "Suc i" xs g] show ?thesis
      by (simp add: rev_map comp_def del: upt_Suc ms.simps(8))
  qed
qed

lemma ms_group1:
  "ms (Group 1 (Seq (Plus Dot) Eps)) (i, s, g) =
     map (\<lambda>k. (i + k, drop k s, g(1 \<mapsto> take k s)))
       (rev [1..<Suc (length (takeWhile (\<lambda>c. c \<noteq> CHR 0x0A) s))])"
  by (simp add: ms_plus_dot comp_def del: upt_Suc ms.simps(9))

lemma ms_group2:
  "ms (Group 2 (Alt (lits r0) (lits r1))) (j, t, h) =
     (if prefix r0 t then [(j + length r0, drop (length r0) t, h(2 \<mapsto> r0))] else []) @
     (if prefix r1 t then [(j + length r1, drop (length r1) t, h(2 \<mapsto> r1))] else [])"
proof -
  have "prefix r t \<Longrightarrow> take (length r) t = r" for r :: string
    by (auto simp: prefix_def)
  then show ?thesis
    by (simp add: ms_lits)
qed

lemma ms_tail:
  "ms (tail_regex r0 r1) (j, t, h) =
     (if prefix r0 t \<and> at_eol (drop (length r0) t)
      then [(j + length r0, drop (length r0) t, h(2 \<mapsto> r0))] else []) @
     (if prefix r1 t \<and> at_eol (drop (length r1) t)
      then [(j + length r1, drop (length r1) t, h(2 \<mapsto> r1))] else [])"
  by (simp only: tail_regex_def ms.simps(6) ms_group2) (simp add: at_eol_def)

lemma ms_tail_group1: "st \<in> set (ms (tail_regex r0 r1) (j, t, h)) \<Longrightarrow> snd (snd st) 1 = h 1"
  unfolding ms_tail by (auto split: if_splits)

lemma ms_tail_empty: "ms (tail_regex r0 r1) (j, t, h) = [] \<longleftrightarrow> \<not> tail_ok r0 r1 t"
  unfolding ms_tail by (simp add: tail_ok_def)

lemma ms_pair_regex:
  "ms (pair_regex r0 r1) (0, fname, Map.empty) =
     concat (map (\<lambda>k. ms (tail_regex r0 r1) (k, drop k fname, [1 \<mapsto> take k fname]))
       (rev [1..<Suc (length (takeWhile (\<lambda>c. c \<noteq> CHR 0x0A) fname))]))"
proof -
  let ?X = "Seq (Group 1 (Seq (Plus Dot) Eps)) (tail_regex r0 r1)"
  have "ms (pair_regex r0 r1) (0, fname, Map.empty) =
      concat (map (ms ?X) (ms Bol (0, fname, Map.empty)))"
    unfolding pair_regex_def by (rule ms.simps(6))
  also have "\<dots> = ms ?X (0, fname, Map.empty)"
    by (simp del: ms.simps add: ms.simps(3))
  also have "\<dots> = concat (map (ms (tail_regex r0 r1))
      (ms (Group 1 (Seq (Plus Dot) Eps)) (0, fname, Map.empty)))"
    by (rule ms.simps(6))
  finally show ?thesis
    by (simp only: ms_group1 map_map comp_def add_0)
qed

lemma first_of_concat:
  "(case concat (map f ks) of [] \<Rightarrow> None | x # xs \<Rightarrow> Some (sel x)) =
     (case find (\<lambda>k. f k \<noteq> []) ks of None \<Rightarrow> None | Some k \<Rightarrow> Some (sel (hd (f k))))"
proof (induction ks)
  case Nil
  then show ?case by simp
next
  case (Cons k ks)
  then show ?case by (cases "f k") simp_all
qed

lemma find_cong_set: "(\<And>x. x \<in> set xs \<Longrightarrow> P x = Q x) \<Longrightarrow> find P xs = find Q xs"
  by (rule find_cong) simp_all

lemma find_Some_mem: "find P xs = Some x \<Longrightarrow> x \<in> set xs \<and> P x"
  by (induction xs) (auto split: if_splits)

lemma find_map_option: "find P (map f xs) = map_option f (find (\<lambda>x. P (f x)) xs)"
  by (induction xs) simp_all

lemma find_snoc_False: "\<not> P y \<Longrightarrow> find P (xs @ [y]) = find P xs"
  by (induction xs) simp_all

lemma re_match_pair_pattern:
  assumes "plain r0" and "plain r1"
  shows "\<exists>mo. re_match (pair_pattern r0 r1) fname = Inr mo \<and>
     map_option (\<lambda>g. g 1) mo =
       map_option (\<lambda>k. Some (take k fname))
         (find (\<lambda>k. tail_ok r0 r1 (drop k fname))
            (rev [1..<Suc (length (takeWhile (\<lambda>c. c \<noteq> CHR 0x0A) fname))]))"
proof -
  let ?ks = "rev [1..<Suc (length (takeWhile (\<lambda>c. c \<noteq> CHR 0x0A) fname))]"
  let ?f = "\<lambda>k. ms (tail_regex r0 r1) (k, drop k fname, [1 \<mapsto> take k fname])"
  let ?sel = "\<lambda>st :: mstate. snd (snd st) 1"
  let ?L = "concat (map ?f ?ks)"
  have sel: "?sel (hd (?f k)) = Some (take k fname)" if "?f k \<noteq> []" for k
    using ms_tail_group1 [of "hd (?f k)" r0 r1 k "drop k fname" "[1 \<mapsto> take k fname]"] that
    by simp
  have "(case ?L of [] \<Rightarrow> None | x # xs \<Rightarrow> Some (?sel x)) =
        (case find (\<lambda>k. ?f k \<noteq> []) ?ks of None \<Rightarrow> None | Some k \<Rightarrow> Some (?sel (hd (?f k))))"
    by (rule first_of_concat)
  also have "find (\<lambda>k. ?f k \<noteq> []) ?ks = find (\<lambda>k. tail_ok r0 r1 (drop k fname)) ?ks"
    by (rule find_cong_set) (simp only: ms_tail_empty, simp)
  also have "(case find (\<lambda>k. tail_ok r0 r1 (drop k fname)) ?ks of None \<Rightarrow> None
               | Some k \<Rightarrow> Some (?sel (hd (?f k)))) =
             map_option (\<lambda>k. Some (take k fname)) (find (\<lambda>k. tail_ok r0 r1 (drop k fname)) ?ks)"
  proof (cases "find (\<lambda>k. tail_ok r0 r1 (drop k fname)) ?ks")
    case None
    then show ?thesis by simp
  next
    case (Some k)
    then have "tail_ok r0 r1 (drop k fname)"
      by (auto simp: find_Some_iff)
    then have "?f k \<noteq> []"
      by (simp only: ms_tail_empty, simp)
    from sel [OF this] Some show ?thesis by simp
  qed
  finally have first: "(case ?L of [] \<Rightarrow> None | x # xs \<Rightarrow> Some (?sel x)) =
      map_option (\<lambda>k. Some (take k fname)) (find (\<lambda>k. tail_ok r0 r1 (drop k fname)) ?ks)" .
  have "re_match (pair_pattern r0 r1) fname =
      Inr (case ?L of [] \<Rightarrow> None | (i, s, g) # sts \<Rightarrow> Some g)"
    unfolding re_match_def re_compile_pair_pattern [OF assms] by (simp only: sum.case ms_pair_regex)
  moreover have "map_option (\<lambda>g. g 1) (case L of [] \<Rightarrow> None | (i, s, g) # sts \<Rightarrow> Some g) =
      (case L of [] \<Rightarrow> None | x # xs \<Rightarrow> Some (?sel x))" for L :: "mstate list"
    by (cases L) (auto split: prod.splits)
  ultimately show ?thesis
    using first by (intro exI conjI) (assumption, simp only:)
qed

lemma prefixes_take: "prefixes s = map (\<lambda>k. take k s) [0..<Suc (length s)]"
proof (induction s rule: rev_induct)
  case Nil
  then show ?case by simp
next
  case (snoc x xs)
  have "map (\<lambda>k. take k (xs @ [x])) [0..<Suc (length xs)] = map (\<lambda>k. take k xs) [0..<Suc (length xs)]"
    by (rule map_cong) auto
  with snoc show ?case by simp
qed

lemma base_name_find:
  "base_name r0 r1 fname =
     map_option (\<lambda>k. take k fname)
       (find (\<lambda>k. drop k fname = r0 \<or> drop k fname = r1) (rev [1..<Suc (length fname)]))"
proof -
  let ?P = "\<lambda>p. p \<noteq> [] \<and> (fname = p @ r0 \<or> fname = p @ r1)"
  have ks: "rev [0..<Suc (length fname)] = rev [1..<Suc (length fname)] @ [0]"
    by (simp del: upt_Suc add: upt_conv_Cons)
  have eq: "?P (take k fname) \<longleftrightarrow> drop k fname = r0 \<or> drop k fname = r1"
    if "k \<in> set (rev [1..<Suc (length fname)])" for k
  proof -
    from that have "take k fname \<noteq> []" by auto
    moreover have "fname = take k fname @ r \<longleftrightarrow> drop k fname = r" for r
      by (metis append_take_drop_id same_append_eq)
    ultimately show ?thesis by simp
  qed
  have "base_name r0 r1 fname = map_option (\<lambda>k. take k fname)
      (find (\<lambda>k. ?P (take k fname)) (rev [0..<Suc (length fname)]))"
    by (simp only: base_name_def prefixes_take rev_map find_map_option)
  also have "find (\<lambda>k. ?P (take k fname)) (rev [0..<Suc (length fname)]) =
      find (\<lambda>k. ?P (take k fname)) (rev [1..<Suc (length fname)])"
    unfolding ks by (rule find_snoc_False) simp
  also have "\<dots> = find (\<lambda>k. drop k fname = r0 \<or> drop k fname = r1) (rev [1..<Suc (length fname)])"
    by (rule find_cong_set) (rule eq)
  finally show ?thesis .
qed

lemma tail_ok_no_newline:
  assumes "CHR 0x0A \<notin> set t"
  shows "tail_ok r0 r1 t \<longleftrightarrow> t = r0 \<or> t = r1"
proof -
  have "prefix r t \<and> at_eol (drop (length r) t) \<longleftrightarrow> t = r" for r
  proof
    assume a: "prefix r t \<and> at_eol (drop (length r) t)"
    then obtain zs where zs: "t = r @ zs" by (auto simp: prefix_def)
    with a assms have "zs = []" by (auto simp: at_eol_def)
    with zs show "t = r" by simp
  qed (simp add: at_eol_def)
  then show ?thesis by (simp add: tail_ok_def)
qed

lemma re_match_base_name:
  assumes "plain r0" and "plain r1" and "CHR 0x0A \<notin> set fname"
  shows "\<exists>mo. re_match (pair_pattern r0 r1) fname = Inr mo \<and>
     map_option (\<lambda>g. g 1) mo = map_option Some (base_name r0 r1 fname)"
proof -
  from assms(3) have tw: "takeWhile (\<lambda>c. c \<noteq> CHR 0x0A) fname = fname"
    by (simp add: takeWhile_eq_all_conv) metis
  have "CHR 0x0A \<notin> set (drop k fname)" for k
    using assms(3) by (meson in_set_dropD)
  then have "find (\<lambda>k. tail_ok r0 r1 (drop k fname)) (rev [1..<Suc (length fname)]) =
      find (\<lambda>k. drop k fname = r0 \<or> drop k fname = r1) (rev [1..<Suc (length fname)])"
    by (intro find_cong_set tail_ok_no_newline)
  with re_match_pair_pattern [OF assms(1,2), of fname] show ?thesis
    by (simp only: tw base_name_find option.map_comp comp_def)
qed

lemma re_match_prefix_nonempty:
  assumes "plain r0" and "plain r1"
  shows "\<exists>mo. re_match (pair_pattern r0 r1) fname = Inr mo \<and>
     (mo = None \<or> (\<exists>g p. mo = Some g \<and> g 1 = Some p \<and> p \<noteq> []))"
proof -
  let ?m = "length (takeWhile (\<lambda>c. c \<noteq> CHR 0x0A) fname)"
  let ?found = "find (\<lambda>k. tail_ok r0 r1 (drop k fname)) (rev [1..<Suc ?m])"
  from re_match_pair_pattern [OF assms, of fname] obtain mo where
    mo: "re_match (pair_pattern r0 r1) fname = Inr mo"
        "map_option (\<lambda>g. g 1) mo = map_option (\<lambda>k. Some (take k fname)) ?found"
    by blast
  have "mo = None \<or> (\<exists>g p. mo = Some g \<and> g 1 = Some p \<and> p \<noteq> [])"
  proof (cases mo)
    case None
    then show ?thesis by simp
  next
    case (Some g)
    with mo(2) obtain k where k: "?found = Some k" "g 1 = Some (take k fname)"
      by (cases ?found) auto
    from k(1) have "k \<in> set (rev [1..<Suc ?m])"
      by (rule find_Some_mem [THEN conjunct1])
    moreover have "?m \<le> length fname"
      by (rule length_takeWhile_le)
    ultimately have "take k fname \<noteq> []" by auto
    with Some k(2) show ?thesis by simp
  qed
  with mo(1) show ?thesis by blast
qed

subsection \<open>The loop builds the grouping\<close>

lemma is_paired_loop_Cons:
  assumes "2 \<le> length reads"
  shows "is_paired_loop (x # infiles) ext reads dic =
     (case re_match (pair_pattern (reads ! 0) (reads ! 1)) (strip_ext x ext) of
        Inl e \<Rightarrow> Inl e
      | Inr None \<Rightarrow> is_paired_loop infiles ext reads dic
      | Inr (Some g) \<Rightarrow>
          is_paired_loop infiles ext reads
            (AList.update (g 1) ((case map_of dic (g 1) of None \<Rightarrow> [] | Some l \<Rightarrow> l) @ [x]) dic))"
proof -
  have "list_get reads 0 = Inr (reads ! 0)" "list_get reads 1 = Inr (reads ! 1)"
    using assms by (auto simp: list_get_def)
  then show ?thesis
    by (simp add: Let_def dict_mem_def dict_get_def split: sum.splits option.splits)
qed

lemma is_paired_loop_groups:
  fixes key :: "string \<Rightarrow> string option option"
  assumes "2 \<le> length reads"
    and "\<forall>x \<in> set infiles. \<exists>mo.
           re_match (pair_pattern (reads ! 0) (reads ! 1)) (strip_ext x ext) = Inr mo \<and>
           map_option (\<lambda>g. g 1) mo = key x"
    and "distinct (map fst dic)"
  shows "\<exists>dic'. is_paired_loop infiles ext reads dic = Inr dic' \<and> distinct (map fst dic') \<and>
     (\<forall>k. map_of dic' k =
        (if filter (\<lambda>x. key x = Some k) infiles = [] then map_of dic k
         else Some ((case map_of dic k of None \<Rightarrow> [] | Some l \<Rightarrow> l) @
                    filter (\<lambda>x. key x = Some k) infiles)))"
  using assms(2,3)
proof (induction infiles arbitrary: dic)
  case Nil
  then show ?case by simp
next
  case (Cons x infiles)
  from Cons.prems(1) obtain mo where
    mo: "re_match (pair_pattern (reads ! 0) (reads ! 1)) (strip_ext x ext) = Inr mo"
        "map_option (\<lambda>g. g 1) mo = key x"
    by auto
  from Cons.prems(1) have rest: "\<forall>x \<in> set infiles. \<exists>mo.
      re_match (pair_pattern (reads ! 0) (reads ! 1)) (strip_ext x ext) = Inr mo \<and>
      map_option (\<lambda>g. g 1) mo = key x"
    by simp
  note step0 = is_paired_loop_Cons [OF assms(1), of x infiles ext dic]
  show ?case
  proof (cases mo)
    case None
    with mo have step: "is_paired_loop (x # infiles) ext reads dic = is_paired_loop infiles ext reads dic"
      unfolding step0 by simp
    from None mo(2) have "key x = None" by simp
    then have "filter (\<lambda>y. key y = Some k) (x # infiles) = filter (\<lambda>y. key y = Some k) infiles" for k
      by simp
    with Cons.IH [OF rest Cons.prems(2)] show ?thesis
      unfolding step by (simp only:)
  next
    case (Some g)
    with mo(2) have key: "key x = Some (g 1)" by auto
    let ?old = "case map_of dic (g 1) of None \<Rightarrow> [] | Some l \<Rightarrow> l"
    let ?dic1 = "AList.update (g 1) (?old @ [x]) dic"
    have step: "is_paired_loop (x # infiles) ext reads dic = is_paired_loop infiles ext reads ?dic1"
      unfolding step0 using mo(1) Some by simp
    have "distinct (map fst ?dic1)"
      using Cons.prems(2) by (simp add: distinct_update)
    from Cons.IH [OF rest this] obtain dic' where
      dic': "is_paired_loop infiles ext reads ?dic1 = Inr dic'" "distinct (map fst dic')"
        "\<forall>k. map_of dic' k =
           (if filter (\<lambda>x. key x = Some k) infiles = [] then map_of ?dic1 k
            else Some ((case map_of ?dic1 k of None \<Rightarrow> [] | Some l \<Rightarrow> l) @
                       filter (\<lambda>x. key x = Some k) infiles))"
      by blast
    have "map_of dic' k =
        (if filter (\<lambda>y. key y = Some k) (x # infiles) = [] then map_of dic k
         else Some ((case map_of dic k of None \<Rightarrow> [] | Some l \<Rightarrow> l) @
                    filter (\<lambda>y. key y = Some k) (x # infiles)))" for k
      using dic'(3) [rule_format, of k] key
      by (auto simp: update_conv' split: option.splits)
    with dic'(1,2) show ?thesis
      unfolding step by blast
  qed
qed

lemma is_paired_loop_result:
  fixes key :: "string \<Rightarrow> string option option"
  assumes "2 \<le> length reads"
    and "\<forall>x \<in> set infiles. \<exists>mo.
           re_match (pair_pattern (reads ! 0) (reads ! 1)) (strip_ext x ext) = Inr mo \<and>
           map_option (\<lambda>g. g 1) mo = key x"
  shows "\<exists>dic. is_paired_loop infiles ext reads [] = Inr dic \<and>
     (\<forall>k l. (k, l) \<in> set dic \<longleftrightarrow> l = filter (\<lambda>x. key x = Some k) infiles \<and> l \<noteq> []) \<and>
     is_paired infiles ext reads =
       Inr ((\<exists>x \<in> set infiles. key x \<noteq> None) \<and>
            Max ((\<lambda>k. length (filter (\<lambda>x. key x = Some k) infiles)) `
                 {k. \<exists>x \<in> set infiles. key x = Some k}) = 2)"
proof -
  define grp where "grp k = filter (\<lambda>x. key x = Some k) infiles" for k
  from is_paired_loop_groups [OF assms, of "[]"] obtain dic where
    dic: "is_paired_loop infiles ext reads [] = Inr dic" "distinct (map fst dic)"
      "\<forall>k. map_of dic k = (if grp k = [] then None else Some (grp k))"
    unfolding grp_def by auto
  have mem: "(k, l) \<in> set dic \<longleftrightarrow> l = grp k \<and> l \<noteq> []" for k l
  proof -
    have "(k, l) \<in> set dic \<longleftrightarrow> map_of dic k = Some l"
      using dic(2) by simp
    also have "\<dots> \<longleftrightarrow> l = grp k \<and> l \<noteq> []"
      using dic(3) [rule_format, of k] by auto
    finally show ?thesis .
  qed
  have keys: "{k. \<exists>x \<in> set infiles. key x = Some k} = {k. grp k \<noteq> []}"
    by (auto simp: grp_def filter_empty_conv)
  have setdic: "set dic = (\<lambda>k. (k, grp k)) ` {k. grp k \<noteq> []}"
  proof (rule set_eqI)
    fix p :: "string option \<times> string list"
    obtain k l where p: "p = (k, l)" by (cases p)
    show "p \<in> set dic \<longleftrightarrow> p \<in> (\<lambda>k. (k, grp k)) ` {k. grp k \<noteq> []}"
      unfolding p mem by auto
  qed
  have sizes: "set (map (\<lambda>x. length x) (map snd dic)) = (\<lambda>k. length (grp k)) ` {k. grp k \<noteq> []}"
    by (simp only: set_map setdic image_image snd_conv)
  have empty: "dic = [] \<longleftrightarrow> \<not> (\<exists>x \<in> set infiles. key x \<noteq> None)"
  proof -
    have "dic = [] \<longleftrightarrow> set dic = {}" by simp
    also have "\<dots> \<longleftrightarrow> {k. grp k \<noteq> []} = {}"
      unfolding setdic by simp
    also have "\<dots> \<longleftrightarrow> \<not> (\<exists>x \<in> set infiles. key x \<noteq> None)"
      unfolding keys [symmetric] by (auto, metis option.exhaust)
    finally show ?thesis .
  qed
  have "is_paired infiles ext reads =
      Inr ((\<exists>x \<in> set infiles. key x \<noteq> None) \<and>
           Max ((\<lambda>k. length (grp k)) ` {k. \<exists>x \<in> set infiles. key x = Some k}) = 2)"
  proof (cases dic)
    case Nil
    with dic(1) empty show ?thesis
      by (simp add: is_paired_def)
  next
    case (Cons a dic0)
    have "py_max (map (\<lambda>x. length x) (map snd dic)) =
        Inr (Max (set (map (\<lambda>x. length x) (map snd dic))))"
      unfolding Cons by (simp only: py_max_def list.map list.case Max.set_eq_fold)
    then have "py_max (map (\<lambda>x. length x) (map snd dic)) =
        Inr (Max ((\<lambda>k. length (grp k)) ` {k. \<exists>x \<in> set infiles. key x = Some k}))"
      by (simp only: sizes keys)
    moreover from Cons empty have "\<exists>x \<in> set infiles. key x \<noteq> None" by simp
    ultimately show ?thesis
      using dic(1) Cons by (simp add: is_paired_def del: set_map map_map)
  qed
  with dic(1) mem show ?thesis
    unfolding grp_def by blast
qed

lemma set_str_replace: "set (str_replace s old []) \<subseteq> set s"
proof (induction s old "[] :: string" rule: str_replace.induct)
  case (1 old)
  then show ?case by simp
next
  case (2 c cs old)
  have "set (drop (length old) (c # cs)) \<subseteq> set (c # cs)"
    by (rule set_drop_subset)
  with 2 show ?case by auto
qed

lemma set_strip_ext: "set (strip_ext x ext) \<subseteq> set x"
proof -
  have "set (basename x) \<subseteq> set x"
    unfolding basename_def using set_takeWhileD by fastforce
  with set_str_replace [of "basename x" ext] show ?thesis
    unfolding strip_ext_def by blast
qed

lemma base_name_None_iff:
  "base_name r0 r1 fname = None \<longleftrightarrow> \<not> strict_suffix r0 fname \<and> \<not> strict_suffix r1 fname"
proof -
  have ss: "strict_suffix r fname \<longleftrightarrow> (\<exists>p. p \<noteq> [] \<and> fname = p @ r)" for r
    by (auto simp: strict_suffix_def suffix_def)
  have "base_name r0 r1 fname = None \<longleftrightarrow>
      \<not> (\<exists>p. prefix p fname \<and> p \<noteq> [] \<and> (fname = p @ r0 \<or> fname = p @ r1))"
    unfolding base_name_def find_None_iff by simp
  also have "\<dots> \<longleftrightarrow> \<not> (\<exists>p. p \<noteq> [] \<and> (fname = p @ r0 \<or> fname = p @ r1))"
    by (metis prefixI)
  also have "\<dots> \<longleftrightarrow> \<not> strict_suffix r0 fname \<and> \<not> strict_suffix r1 fname"
    unfolding ss by blast
  finally show ?thesis .
qed

lemma set_map_filter_Some: "set (List.map_filter f xs) = {y. \<exists>x \<in> set xs. f x = Some y}"
  by (induction xs) (auto simp: List.map_filter_simps split: option.splits)

lemma paired_by_sets:
  "paired_by base infiles \<longleftrightarrow>
     (\<exists>x \<in> set infiles. base x \<noteq> None) \<and>
     Max ((\<lambda>p. length (group_of base infiles p)) ` {p. \<exists>x \<in> set infiles. base x = Some p}) = 2"
proof -
  have keys: "set (remdups (List.map_filter base infiles)) = {p. \<exists>x \<in> set infiles. base x = Some p}"
    by (simp add: set_map_filter_Some)
  have "remdups (List.map_filter base infiles) \<noteq> [] \<longleftrightarrow>
      set (remdups (List.map_filter base infiles)) \<noteq> {}"
    by (simp only: set_empty)
  also have "\<dots> \<longleftrightarrow> (\<exists>x \<in> set infiles. base x \<noteq> None)"
    unfolding keys by auto
  finally show ?thesis
    by (simp only: paired_by_def Let_def set_map keys)
qed

subsection \<open>The pairing decision\<close>

text \<open>
  Claim C1, as amended. For every list of input paths none of which contains a newline, every
  extension, and every list of at least two read suffixes whose first two elements are plain
  (free of the special characters of regular expressions): \<open>is_paired\<close> returns \<open>True\<close> if and
  only if the pairing grouping is non-empty and its largest group has exactly two members.
  The grouping is the dictionary the loop builds: a path whose stripped name is a non-empty
  prefix followed by one of the two suffixes is in the group of the longest such prefix, and
  every other path, also one whose stripped name is a suffix alone, is in no group.
\<close>

theorem is_paired_plain_suffixes:
  assumes "2 \<le> length reads" and "plain (reads ! 0)" and "plain (reads ! 1)"
    and "\<forall>x \<in> set infiles. CHR 0x0A \<notin> set x"
  shows "\<exists>dic. is_paired_loop infiles ext reads [] = Inr dic \<and>
     (\<forall>k l. (k, l) \<in> set dic \<longleftrightarrow>
        (\<exists>p. k = Some p \<and> l \<noteq> [] \<and>
           l = group_of (\<lambda>x. base_name (reads ! 0) (reads ! 1) (strip_ext x ext)) infiles p)) \<and>
     is_paired infiles ext reads = Inr (pairing infiles ext (reads ! 0) (reads ! 1))"
proof -
  define base where "base x = base_name (reads ! 0) (reads ! 1) (strip_ext x ext)" for x
  define key where "key x = map_option Some (base x)" for x
  have "\<forall>x \<in> set infiles. \<exists>mo.
      re_match (pair_pattern (reads ! 0) (reads ! 1)) (strip_ext x ext) = Inr mo \<and>
      map_option (\<lambda>g. g 1) mo = key x"
  proof
    fix x assume "x \<in> set infiles"
    with assms(4) set_strip_ext [of x ext] have "CHR 0x0A \<notin> set (strip_ext x ext)"
      by blast
    from re_match_base_name [OF assms(2,3) this]
    show "\<exists>mo. re_match (pair_pattern (reads ! 0) (reads ! 1)) (strip_ext x ext) = Inr mo \<and>
        map_option (\<lambda>g. g 1) mo = key x"
      unfolding key_def base_def .
  qed
  from is_paired_loop_result [OF assms(1) this] obtain dic where
    dic: "is_paired_loop infiles ext reads [] = Inr dic"
      "\<forall>k l. (k, l) \<in> set dic \<longleftrightarrow> l = filter (\<lambda>x. key x = Some k) infiles \<and> l \<noteq> []"
      "is_paired infiles ext reads =
         Inr ((\<exists>x \<in> set infiles. key x \<noteq> None) \<and>
              Max ((\<lambda>k. length (filter (\<lambda>x. key x = Some k) infiles)) `
                   {k. \<exists>x \<in> set infiles. key x = Some k}) = 2)"
    by blast
  have grp: "filter (\<lambda>x. key x = Some (Some p)) infiles = group_of base infiles p" for p
    unfolding group_of_def key_def by (rule filter_cong) auto
  have grp_None: "filter (\<lambda>x. key x = Some None) infiles = []"
    by (auto simp: key_def filter_empty_conv)
  have mem: "(k, l) \<in> set dic \<longleftrightarrow> (\<exists>p. k = Some p \<and> l \<noteq> [] \<and> l = group_of base infiles p)" for k l
  proof (cases k)
    case None
    with dic(2) grp_None show ?thesis by auto
  next
    case (Some p)
    with dic(2) grp [of p] show ?thesis by auto
  qed
  have keys: "{k. \<exists>x \<in> set infiles. key x = Some k} = Some ` {p. \<exists>x \<in> set infiles. base x = Some p}"
    by (auto simp: key_def image_iff)
  have some: "(\<exists>x \<in> set infiles. key x \<noteq> None) \<longleftrightarrow> (\<exists>x \<in> set infiles. base x \<noteq> None)"
    by (simp add: key_def)
  have "is_paired infiles ext reads = Inr (paired_by base infiles)"
    unfolding dic(3) paired_by_sets keys some image_image grp ..
  with dic(1) mem show ?thesis
    unfolding pairing_def base_def by blast
qed

theorem is_paired_plain_suffixes_witness:
  "2 \<le> length [''_R1'', ''_R2''] \<and> plain ([''_R1'', ''_R2''] ! 0) \<and> plain ([''_R1'', ''_R2''] ! 1) \<and>
   CHR 0x0A \<notin> set ''a.fastq.gz'' \<and> CHR 0x0A \<notin> set ''b_R1.fastq.gz'' \<and>
   CHR 0x0A \<notin> set ''b_R2.fastq.gz'' \<and>
   pairing [''a.fastq.gz'', ''b_R1.fastq.gz'', ''b_R2.fastq.gz''] ''.fastq.gz'' ''_R1'' ''_R2'' \<and>
   is_paired [''a.fastq.gz'', ''b_R1.fastq.gz'', ''b_R2.fastq.gz''] ''.fastq.gz'' [''_R1'', ''_R2''] = Inr True"
proof -
  have h1: "2 \<le> length [''_R1'', ''_R2'']" by simp
  have h2: "plain ([''_R1'', ''_R2''] ! 0)" by (simp add: plain_def)
  have h3: "plain ([''_R1'', ''_R2''] ! 1)" by (simp add: plain_def)
  have h4: "\<forall>x \<in> set [''a.fastq.gz'', ''b_R1.fastq.gz'', ''b_R2.fastq.gz'']. CHR 0x0A \<notin> set x"
    by simp
  have p: "pairing [''a.fastq.gz'', ''b_R1.fastq.gz'', ''b_R2.fastq.gz''] ''.fastq.gz'' ''_R1'' ''_R2''"
    by (simp add: pairing_def paired_by_def group_of_def base_name_def strip_ext_def basename_def
        List.map_filter_def)
  from is_paired_plain_suffixes [OF h1 h2 h3 h4, of "''.fastq.gz''"] p h1 h2 h3 h4
  show ?thesis by auto
qed

text \<open>
  Claim C1 as stated, with any prefix allowed, fails on two paths whose stripped name is the
  first suffix itself: the grouping of the specification has the group of the empty prefix
  with two members, while the code finds no match and returns \<open>False\<close>.
\<close>

theorem spec_grouping_counterexample:
  "is_paired [''lane1/_R1.fastq.gz'', ''lane2/_R1.fastq.gz''] ''.fastq.gz'' [''_R1'', ''_R2''] = Inr False \<and>
   spec_pairing [''lane1/_R1.fastq.gz'', ''lane2/_R1.fastq.gz''] ''.fastq.gz'' ''_R1'' ''_R2''"
proof -
  have "is_paired [''lane1/_R1.fastq.gz'', ''lane2/_R1.fastq.gz''] ''.fastq.gz'' [''_R1'', ''_R2''] = Inr False"
    by (simp add: is_paired_def strip_ext_def basename_def list_get_def pair_pattern_def re_match_def
        re_compile_def seq_of_def alt_of_def quantify_def)
  moreover have "spec_pairing [''lane1/_R1.fastq.gz'', ''lane2/_R1.fastq.gz''] ''.fastq.gz'' ''_R1'' ''_R2''"
    by (simp add: spec_pairing_def paired_by_def group_of_def spec_base_name_def strip_ext_def
        basename_def List.map_filter_def)
  ultimately show ?thesis by simp
qed

text \<open>
  A suffix that is not plain is read as a regular expression: with the suffixes \<open>.1\<close> and
  \<open>.2\<close> the names \<open>a_1\<close> and \<open>a_2\<close> are paired, although neither ends in a suffix.
\<close>

lemma is_paired_suffix_read_as_regex:
  "is_paired [''a_1.fq'', ''a_2.fq''] ''.fq'' [''.1'', ''.2''] = Inr True \<and>
   \<not> spec_pairing [''a_1.fq'', ''a_2.fq''] ''.fq'' ''.1'' ''.2''"
proof -
  have "is_paired [''a_1.fq'', ''a_2.fq''] ''.fq'' [''.1'', ''.2''] = Inr True"
    by (simp add: is_paired_def strip_ext_def basename_def list_get_def pair_pattern_def re_match_def
        re_compile_def seq_of_def alt_of_def quantify_def dict_mem_def dict_get_def py_max_def)
  moreover have "\<not> spec_pairing [''a_1.fq'', ''a_2.fq''] ''.fq'' ''.1'' ''.2''"
    by (simp add: spec_pairing_def paired_by_def group_of_def spec_base_name_def strip_ext_def
        basename_def List.map_filter_def)
  ultimately show ?thesis by simp
qed

subsection \<open>A name that is a read suffix and nothing else\<close>

lemma is_paired_loop_plain:
  assumes "2 \<le> length reads" and "plain (reads ! 0)" and "plain (reads ! 1)"
  shows "\<exists>dic. is_paired_loop infiles ext reads [] = Inr dic \<and>
     (\<forall>k l. (k, l) \<in> set dic \<longrightarrow>
        (\<exists>p. k = Some p \<and> p \<noteq> []) \<and>
        (\<forall>x \<in> set l. re_match (pair_pattern (reads ! 0) (reads ! 1)) (strip_ext x ext) \<noteq> Inr None))"
proof -
  define key where
    "key x = map_option (\<lambda>g. g 1)
       (projr (re_match (pair_pattern (reads ! 0) (reads ! 1)) (strip_ext x ext)))" for x
  have m: "\<exists>mo. re_match (pair_pattern (reads ! 0) (reads ! 1)) (strip_ext x ext) = Inr mo \<and>
      (mo = None \<or> (\<exists>g p. mo = Some g \<and> g 1 = Some p \<and> p \<noteq> []))" for x
    by (rule re_match_prefix_nonempty [OF assms(2,3)])
  have "\<forall>x \<in> set infiles. \<exists>mo.
      re_match (pair_pattern (reads ! 0) (reads ! 1)) (strip_ext x ext) = Inr mo \<and>
      map_option (\<lambda>g. g 1) mo = key x"
    using m unfolding key_def by (metis sum.sel(2))
  from is_paired_loop_result [OF assms(1) this] obtain dic where
    dic: "is_paired_loop infiles ext reads [] = Inr dic"
      "\<forall>k l. (k, l) \<in> set dic \<longleftrightarrow> l = filter (\<lambda>x. key x = Some k) infiles \<and> l \<noteq> []"
    by blast
  have "(\<exists>p. k = Some p \<and> p \<noteq> []) \<and>
      (\<forall>x \<in> set l. re_match (pair_pattern (reads ! 0) (reads ! 1)) (strip_ext x ext) \<noteq> Inr None)"
    if "(k, l) \<in> set dic" for k l
  proof -
    from that dic(2) have l: "l = filter (\<lambda>x. key x = Some k) infiles" "l \<noteq> []"
      by auto
    have *: "re_match (pair_pattern (reads ! 0) (reads ! 1)) (strip_ext x ext) \<noteq> Inr None \<and>
        (\<exists>p. k = Some p \<and> p \<noteq> [])" if "key x = Some k" for x
    proof -
      from m [of x] obtain mo where mo:
        "re_match (pair_pattern (reads ! 0) (reads ! 1)) (strip_ext x ext) = Inr mo"
        "mo = None \<or> (\<exists>g p. mo = Some g \<and> g 1 = Some p \<and> p \<noteq> [])"
        by blast
      from that mo(1) have "map_option (\<lambda>g. g 1) mo = Some k"
        by (simp add: key_def)
      with mo show ?thesis by auto
    qed
    from l(2) obtain y where "y \<in> set l" by (cases l) auto
    with l(1) have "key y = Some k" by simp
    from * [OF this] have "\<exists>p. k = Some p \<and> p \<noteq> []" by simp
    moreover have "\<forall>x \<in> set l.
        re_match (pair_pattern (reads ! 0) (reads ! 1)) (strip_ext x ext) \<noteq> Inr None"
      using l(1) * by simp
    ultimately show ?thesis by simp
  qed
  with dic(1) show ?thesis by blast
qed

text \<open>
  Claim C9, as amended. For plain read suffixes the captured prefix is never empty: every
  key of the grouping is a non-empty string. A path without a newline whose stripped name is
  exactly one of the two read suffixes matches neither alternative and is in no group,
  unless the other read suffix is a proper suffix of that name.
\<close>

theorem suffix_only_name_excluded:
  assumes "2 \<le> length reads" and "plain (reads ! 0)" and "plain (reads ! 1)"
    and "CHR 0x0A \<notin> set x"
    and "strip_ext x ext = reads ! 0 \<and> \<not> strict_suffix (reads ! 1) (reads ! 0) \<or>
         strip_ext x ext = reads ! 1 \<and> \<not> strict_suffix (reads ! 0) (reads ! 1)"
  shows "re_match (pair_pattern (reads ! 0) (reads ! 1)) (strip_ext x ext) = Inr None \<and>
     (\<exists>dic. is_paired_loop infiles ext reads [] = Inr dic \<and>
        (\<forall>k l. (k, l) \<in> set dic \<longrightarrow> x \<notin> set l \<and> (\<exists>p. k = Some p \<and> p \<noteq> [])))"
proof -
  from assms(4) set_strip_ext [of x ext] have "CHR 0x0A \<notin> set (strip_ext x ext)"
    by blast
  from re_match_base_name [OF assms(2,3) this] obtain mo where
    mo: "re_match (pair_pattern (reads ! 0) (reads ! 1)) (strip_ext x ext) = Inr mo"
        "map_option (\<lambda>g. g 1) mo = map_option Some (base_name (reads ! 0) (reads ! 1) (strip_ext x ext))"
    by blast
  have "base_name (reads ! 0) (reads ! 1) (strip_ext x ext) = None"
    unfolding base_name_None_iff using assms(5) by auto
  with mo have none: "re_match (pair_pattern (reads ! 0) (reads ! 1)) (strip_ext x ext) = Inr None"
    by simp
  from is_paired_loop_plain [OF assms(1,2,3), of infiles ext] obtain dic where
    dic: "is_paired_loop infiles ext reads [] = Inr dic"
      "\<forall>k l. (k, l) \<in> set dic \<longrightarrow>
        (\<exists>p. k = Some p \<and> p \<noteq> []) \<and>
        (\<forall>x \<in> set l. re_match (pair_pattern (reads ! 0) (reads ! 1)) (strip_ext x ext) \<noteq> Inr None)"
    by blast
  from dic(2) none have "\<forall>k l. (k, l) \<in> set dic \<longrightarrow> x \<notin> set l \<and> (\<exists>p. k = Some p \<and> p \<noteq> [])"
    by blast
  with none dic(1) show ?thesis by blast
qed

theorem suffix_only_name_excluded_witness:
  "2 \<le> length [''_R1'', ''_R2''] \<and> plain ([''_R1'', ''_R2''] ! 0) \<and> plain ([''_R1'', ''_R2''] ! 1) \<and>
   CHR 0x0A \<notin> set ''run/_R1.fastq.gz'' \<and>
   strip_ext ''run/_R1.fastq.gz'' ''.fastq.gz'' = [''_R1'', ''_R2''] ! 0 \<and>
   \<not> strict_suffix ([''_R1'', ''_R2''] ! 1) ([''_R1'', ''_R2''] ! 0) \<and>
   re_match (pair_pattern ([''_R1'', ''_R2''] ! 0) ([''_R1'', ''_R2''] ! 1))
     (strip_ext ''run/_R1.fastq.gz'' ''.fastq.gz'') = Inr None \<and>
   is_paired_loop [''a_R1.fastq.gz'', ''run/_R1.fastq.gz''] ''.fastq.gz'' [''_R1'', ''_R2''] [] =
     Inr [(Some ''a'', [''a_R1.fastq.gz''])]"
proof -
  have h1: "2 \<le> length [''_R1'', ''_R2'']" by simp
  have h2: "plain ([''_R1'', ''_R2''] ! 0)" by (simp add: plain_def)
  have h3: "plain ([''_R1'', ''_R2''] ! 1)" by (simp add: plain_def)
  have h4: "CHR 0x0A \<notin> set ''run/_R1.fastq.gz''" by simp
  have s: "strip_ext ''run/_R1.fastq.gz'' ''.fastq.gz'' = [''_R1'', ''_R2''] ! 0"
    by (simp add: strip_ext_def basename_def)
  have n: "\<not> strict_suffix ([''_R1'', ''_R2''] ! 1) ([''_R1'', ''_R2''] ! 0)"
    by (simp add: strict_suffix_def suffix_to_prefix)
  have h5: "strip_ext ''run/_R1.fastq.gz'' ''.fastq.gz'' = [''_R1'', ''_R2''] ! 0 \<and>
        \<not> strict_suffix ([''_R1'', ''_R2''] ! 1) ([''_R1'', ''_R2''] ! 0) \<or>
      strip_ext ''run/_R1.fastq.gz'' ''.fastq.gz'' = [''_R1'', ''_R2''] ! 1 \<and>
        \<not> strict_suffix ([''_R1'', ''_R2''] ! 0) ([''_R1'', ''_R2''] ! 1)"
    using s n by blast
  have l: "is_paired_loop [''a_R1.fastq.gz'', ''run/_R1.fastq.gz''] ''.fastq.gz'' [''_R1'', ''_R2''] [] =
      Inr [(Some ''a'', [''a_R1.fastq.gz''])]"
    by (simp add: strip_ext_def basename_def list_get_def pair_pattern_def re_match_def
        re_compile_def seq_of_def alt_of_def quantify_def dict_mem_def dict_get_def)
  from suffix_only_name_excluded [OF h1 h2 h3 h4 h5] h1 h2 h3 h4 s n l
  show ?thesis by blast
qed

text \<open>
  Claim C9 as stated fails when the second suffix is a proper suffix of the first: with the
  suffixes \<open>_R1\<close> and \<open>R1\<close> the stripped name \<open>_R1\<close> equals the first suffix, matches as the
  prefix \<open>_\<close> followed by the second suffix, and is put in the group \<open>_\<close>.
\<close>

theorem suffix_only_name_counterexample:
  "strip_ext ''_R1.fastq.gz'' ''.fastq.gz'' = [''_R1'', ''R1''] ! 0 \<and>
   re_match (pair_pattern ([''_R1'', ''R1''] ! 0) ([''_R1'', ''R1''] ! 1))
     (strip_ext ''_R1.fastq.gz'' ''.fastq.gz'') \<noteq> Inr None \<and>
   is_paired_loop [''_R1.fastq.gz''] ''.fastq.gz'' [''_R1'', ''R1''] [] =
     Inr [(Some ''_'', [''_R1.fastq.gz''])]"
  by (simp add: strip_ext_def basename_def list_get_def pair_pattern_def re_match_def
      re_compile_def seq_of_def alt_of_def quantify_def dict_mem_def dict_get_def)

section \<open>Properties of the configuration functions\<close>

lemma config_diff_loop_result:
  assumes "set ks \<subseteq> fst ` set dict1" and "distinct (map fst diff)"
  shows "\<exists>d. config_diff_loop ne ks dict1 dict2 diff = Inr d \<and> distinct (map fst d) \<and>
     (\<forall>k. map_of d k =
        (if k \<in> set ks \<and> (map_of dict2 k = None \<or> differs ne (map_of dict1 k) (map_of dict2 k))
         then map_of dict1 k else map_of diff k))"
  using assms
proof (induction ks arbitrary: diff)
  case Nil
  then show ?case by simp
next
  case (Cons k ks)
  from Cons.prems obtain v1 where v1: "map_of dict1 k = Some v1"
    by (metis list.set_intros(1) map_of_eq_None_iff not_None_eq subsetD)
  from Cons.prems have sub: "set ks \<subseteq> fst ` set dict1"
    by simp
  show ?case
  proof (cases "map_of dict2 k = None \<or> differs ne (map_of dict1 k) (map_of dict2 k)")
    case False
    then obtain v2 where v2: "map_of dict2 k = Some v2" "\<not> ne v1 v2"
      using v1 by (auto simp: differs_def)
    from Cons.IH [OF sub Cons.prems(2)] obtain d where
      "config_diff_loop ne ks dict1 dict2 diff = Inr d" "distinct (map fst d)"
      "\<forall>k. map_of d k =
         (if k \<in> set ks \<and> (map_of dict2 k = None \<or> differs ne (map_of dict1 k) (map_of dict2 k))
          then map_of dict1 k else map_of diff k)"
      by blast
    with False v1 v2 show ?thesis
      by (auto simp: dict_mem_def dict_get_def)
  next
    case True
    have step: "config_diff_loop ne (k # ks) dict1 dict2 diff =
        config_diff_loop ne ks dict1 dict2 (AList.update k v1 diff)"
      using True v1 by (auto simp: dict_mem_def dict_get_def differs_def split: option.splits)
    have "distinct (map fst (AList.update k v1 diff))"
      using Cons.prems(2) by (simp add: distinct_update)
    from Cons.IH [OF sub this] obtain d where
      d: "config_diff_loop ne ks dict1 dict2 (AList.update k v1 diff) = Inr d" "distinct (map fst d)"
      "\<forall>k'. map_of d k' =
         (if k' \<in> set ks \<and> (map_of dict2 k' = None \<or> differs ne (map_of dict1 k') (map_of dict2 k'))
          then map_of dict1 k' else map_of (AList.update k v1 diff) k')"
      by blast
    have "map_of d k' =
        (if k' \<in> set (k # ks) \<and>
            (map_of dict2 k' = None \<or> differs ne (map_of dict1 k') (map_of dict2 k'))
         then map_of dict1 k' else map_of diff k')" for k'
      using d(3) [rule_format, of k'] True v1 by (auto simp: update_conv')
    with d(1,2) show ?thesis
      unfolding step by blast
  qed
qed

lemma config_diff_result:
  "\<exists>d. config_diff ne dict1 dict2 = Inr d \<and> distinct (map fst d) \<and>
     (\<forall>k. map_of d k =
        (if map_of dict1 k \<noteq> None \<and>
            (map_of dict2 k = None \<or> differs ne (map_of dict1 k) (map_of dict2 k))
         then map_of dict1 k else None))"
proof -
  from config_diff_loop_result [of "map fst dict1" dict1 "[]" ne dict2]
  obtain d where d: "config_diff ne dict1 dict2 = Inr d" "distinct (map fst d)"
    "\<forall>k. map_of d k =
       (if k \<in> set (map fst dict1) \<and>
           (map_of dict2 k = None \<or> differs ne (map_of dict1 k) (map_of dict2 k))
        then map_of dict1 k else map_of [] k)"
    by (auto simp: config_diff_def)
  have "map_of d k =
      (if map_of dict1 k \<noteq> None \<and>
          (map_of dict2 k = None \<or> differs ne (map_of dict1 k) (map_of dict2 k))
       then map_of dict1 k else None)" for k
  proof (cases "k \<in> fst ` set dict1")
    case True
    then have "map_of dict1 k \<noteq> None"
      by (simp add: map_of_eq_None_iff)
    with True d(3) [rule_format, of k] show ?thesis by simp
  next
    case False
    then have "map_of dict1 k = None"
      by (simp add: map_of_eq_None_iff)
    with False d(3) [rule_format, of k] show ?thesis by simp
  qed
  with d show ?thesis by blast
qed

text \<open>
  Claim C7. For all mappings \<open>a\<close> and \<open>b\<close>, \<open>config_diff a b\<close> returns a mapping whose keys are
  exactly the keys of \<open>a\<close> that are absent from \<open>b\<close> or whose value in \<open>a\<close> differs from the
  value in \<open>b\<close>; each such key has the value it has in \<open>a\<close>; a key present only in \<open>b\<close> is not
  in the result. To differ is the code's test \<open>!=\<close> on the two values, whatever it says
  of them.
\<close>

theorem config_diff_keys_and_values:
  "\<exists>d. config_diff ne a b = Inr d \<and>
     dom (map_of d) =
       {k \<in> dom (map_of a). k \<notin> dom (map_of b) \<or> differs ne (map_of a k) (map_of b k)} \<and>
     (\<forall>k \<in> dom (map_of d). map_of d k = map_of a k) \<and>
     dom (map_of d) \<inter> (dom (map_of b) - dom (map_of a)) = {}"
proof -
  from config_diff_result [of ne a b] obtain d where d: "config_diff ne a b = Inr d"
    "\<forall>k. map_of d k =
       (if map_of a k \<noteq> None \<and> (map_of b k = None \<or> differs ne (map_of a k) (map_of b k))
        then map_of a k else None)"
    by blast
  have "dom (map_of d) =
      {k \<in> dom (map_of a). k \<notin> dom (map_of b) \<or> differs ne (map_of a k) (map_of b k)}"
    using d(2) by (auto simp: dom_def split: if_splits)
  moreover have "\<forall>k \<in> dom (map_of d). map_of d k = map_of a k"
    using d(2) by (auto simp: dom_def split: if_splits)
  moreover have "dom (map_of d) \<inter> (dom (map_of b) - dom (map_of a)) = {}"
    using d(2) by (auto simp: dom_def split: if_splits)
  ultimately show ?thesis using d(1) by blast
qed

theorem config_diff_keys_and_values_witness:
  "config_diff (\<lambda>x y. x \<noteq> y) [(''genome'', ''mm10''), (''mode'', ''fast''), (''trim'', ''yes'')]
               [(''genome'', ''mm10''), (''mode'', ''slow''), (''extra'', ''1'')] =
     Inr [(''mode'', ''fast''), (''trim'', ''yes'')] \<and>
   (\<exists>d. config_diff (\<lambda>x y. x \<noteq> y) [(''genome'', ''mm10''), (''mode'', ''fast''), (''trim'', ''yes'')]
               [(''genome'', ''mm10''), (''mode'', ''slow''), (''extra'', ''1'')] = Inr d \<and>
      dom (map_of d) = {k \<in> dom (map_of [(''genome'', ''mm10''), (''mode'', ''fast''), (''trim'', ''yes'')]).
          k \<notin> dom (map_of [(''genome'', ''mm10''), (''mode'', ''slow''), (''extra'', ''1'')]) \<or>
          differs (\<lambda>x y. x \<noteq> y)
            (map_of [(''genome'', ''mm10''), (''mode'', ''fast''), (''trim'', ''yes'')] k)
            (map_of [(''genome'', ''mm10''), (''mode'', ''slow''), (''extra'', ''1'')] k)} \<and>
      (\<forall>k \<in> dom (map_of d). map_of d k = map_of [(''genome'', ''mm10''), (''mode'', ''fast''), (''trim'', ''yes'')] k) \<and>
      dom (map_of d) \<inter> (dom (map_of [(''genome'', ''mm10''), (''mode'', ''slow''), (''extra'', ''1'')]) -
        dom (map_of [(''genome'', ''mm10''), (''mode'', ''fast''), (''trim'', ''yes'')])) = {})"
proof -
  have "config_diff (\<lambda>x y. x \<noteq> y) [(''genome'', ''mm10''), (''mode'', ''fast''), (''trim'', ''yes'')]
               [(''genome'', ''mm10''), (''mode'', ''slow''), (''extra'', ''1'')] =
     Inr [(''mode'', ''fast''), (''trim'', ''yes'')]"
    by (simp add: config_diff_def dict_mem_def dict_get_def)
  then show ?thesis
    using config_diff_keys_and_values
      [of "\<lambda>x y. x \<noteq> y" "[(''genome'', ''mm10''), (''mode'', ''fast''), (''trim'', ''yes'')]"
          "[(''genome'', ''mm10''), (''mode'', ''slow''), (''extra'', ''1'')]"]
    by blast
qed

text \<open>
  A value that \<open>!=\<close> tells apart from itself, as the float \<open>nan\<close> is, stays in the difference of
  a mapping with an equal one.
\<close>

lemma config_diff_value_unequal_to_itself:
  "ne v v \<Longrightarrow> config_diff ne [(k, v)] [(k, v)] = Inr [(k, v)]"
  by (simp add: config_diff_def dict_mem_def dict_get_def)

lemma delete_absent: "map_of d k = None \<Longrightarrow> AList.delete k d = d"
  by (induction d) (auto split: if_splits)

lemma sanity_dict_clean_Some:
  "sanity_dict_clean (Some d) =
     Some (AList.delete ''workflow'' (AList.delete ''maindir'' d))"
proof -
  have step: "(if e \<noteq> [] \<and> dict_mem k e then Some (AList.delete k e) else Some e) =
      Some (AList.delete k e)" for k :: string and e :: "(string, 'a) dict"
    by (auto simp: dict_mem_def delete_absent)
  show ?thesis
    by (simp add: sanity_dict_clean_def unwanted_keys_def step del: not_None_eq)
       (auto simp: dict_mem_def delete_absent)
qed

text \<open>
  Claim C8. For every mapping parsed from a configuration file, the mapping returned by
  \<open>load_configfile\<close> has neither the key \<open>maindir\<close> nor the key \<open>workflow\<close>, and every other
  key has the value it had in the parsed mapping.
\<close>

theorem load_configfile_removes_reserved_keys:
  "\<exists>config out. load_configfile str_of (Some parsed) configfile verbose info = Inr (Some config, out) \<and>
     ''maindir'' \<notin> dom (map_of config) \<and> ''workflow'' \<notin> dom (map_of config) \<and>
     (\<forall>k. k \<noteq> ''maindir'' \<and> k \<noteq> ''workflow'' \<longrightarrow> map_of config k = map_of parsed k)"
proof -
  let ?config = "AList.delete ''workflow'' (AList.delete ''maindir'' parsed)"
  have "\<exists>out. load_configfile str_of (Some parsed) configfile verbose info = Inr (Some ?config, out)"
    by (simp add: load_configfile_def sanity_dict_clean_Some Let_def)
  moreover have "''maindir'' \<notin> dom (map_of ?config)" "''workflow'' \<notin> dom (map_of ?config)"
    by (simp_all add: delete_conv' dom_def)
  moreover have "\<forall>k. k \<noteq> ''maindir'' \<and> k \<noteq> ''workflow'' \<longrightarrow> map_of ?config k = map_of parsed k"
    by (simp add: delete_conv')
  ultimately show ?thesis by blast
qed

theorem load_configfile_removes_reserved_keys_witness:
  "load_configfile (\<lambda>v. v) (Some [(''maindir'', ''/opt''), (''genome'', ''mm10''), (''workflow'', ''x'')])
     ''c.yaml'' False ''Config'' = Inr (Some [(''genome'', ''mm10'')], []) \<and>
   (\<exists>config out. load_configfile (\<lambda>v. v) (Some [(''maindir'', ''/opt''), (''genome'', ''mm10''), (''workflow'', ''x'')])
     ''c.yaml'' False ''Config'' = Inr (Some config, out) \<and>
     ''maindir'' \<notin> dom (map_of config) \<and> ''workflow'' \<notin> dom (map_of config) \<and>
     (\<forall>k. k \<noteq> ''maindir'' \<and> k \<noteq> ''workflow'' \<longrightarrow>
        map_of config k = map_of [(''maindir'', ''/opt''), (''genome'', ''mm10''), (''workflow'', ''x'')] k))"
proof -
  have "load_configfile (\<lambda>v. v) (Some [(''maindir'', ''/opt''), (''genome'', ''mm10''), (''workflow'', ''x'')])
     ''c.yaml'' False ''Config'' = Inr (Some [(''genome'', ''mm10'')], [])"
    by (simp add: load_configfile_def sanity_dict_clean_def unwanted_keys_def dict_mem_def)
  then show ?thesis
    using load_configfile_removes_reserved_keys
      [of "\<lambda>v. v" "[(''maindir'', ''/opt''), (''genome'', ''mm10''), (''workflow'', ''x'')]"
          "''c.yaml''" False "''Config''"]
    by blast
qed

end
